theory Spec2Isabelle
  imports Main "HOL-Library.Sublist" "HOL-Library.Char_ord" "HOL-Library.List_Lexorder"
begin

section \<open>Python values used by the program\<close>

text \<open>
  The program is one Python module, \<^verbatim>\<open>main.py\<close>. Strings are \<open>string\<close>, one
  \<open>char\<close> for each character that Python's \<^verbatim>\<open>len\<close> counts; lists are HOL lists;
  and a function that can raise returns \<open>error + 'a\<close>: \<open>Inl\<close> is the
  exception that leaves the function, \<open>Inr\<close> its return value. No function of the module
  catches an exception, so an \<open>Inl\<close> ends the whole run.
\<close>

datatype error = IndexError | KeyError

text \<open>
  \<^verbatim>\<open>s.split(sep)\<close> for a non-empty separator: the string is scanned from the left, every
  occurrence found closes the current piece and the scan resumes behind it, so occurrences
  never overlap and the result has at least one piece. \<open>acc\<close> is the piece being built.
  (Python raises ValueError for an empty separator; every call of the module passes a
  non-empty literal, and the model then returns the string as its only piece.)
\<close>

fun split_from :: "string \<Rightarrow> string \<Rightarrow> string \<Rightarrow> string list" where
  "split_from sep acc [] = [acc]"
| "split_from sep acc (c # cs) =
     (if sep \<noteq> [] \<and> prefix sep (c # cs)
      then acc # split_from sep [] (drop (length sep) (c # cs))
      else split_from sep (acc @ [c]) cs)"

definition str_split :: "string \<Rightarrow> string \<Rightarrow> string list" where
  "str_split s sep = split_from sep [] s"

text \<open>
  Python's slice \<^verbatim>\<open>xs[a:b]\<close> for non-negative bounds: it never raises, and is cut off
  at the end of the list.
\<close>

definition py_slice :: "'a list \<Rightarrow> nat \<Rightarrow> nat \<Rightarrow> 'a list" where
  "py_slice xs a b = take (b - a) (drop a xs)"

section \<open>Reassembly of wrapped messages (format_messages)\<close>

text \<open>
  The test of the inner loop on \<^verbatim>\<open>next_date_element\<close>:
  \<^verbatim>\<open>len(next_date_element) <= 8 and next_date_element.count('/') == 2\<close>.
\<close>

definition is_date :: "string \<Rightarrow> bool" where
  "is_date next_date_element \<longleftrightarrow>
     length next_date_element \<le> 8 \<and> count_list next_date_element CHR ''/'' = 2"

text \<open>
  The slice assignment \<^verbatim>\<open>text[i:i+2] = [''.join(text[i:i+2])]\<close>: the elements at
  \<open>i\<close> and \<open>i + 1\<close> are replaced by their concatenation.
\<close>

definition merge_two :: "string list \<Rightarrow> nat \<Rightarrow> string list" where
  "merge_two text i = take i text @ [concat (py_slice text i (i + 2))] @ drop (i + 2) text"

text \<open>
  The inner loop \<^verbatim>\<open>while c == False\<close>, on the state \<open>(text, i, length)\<close>. It reads
  \<^verbatim>\<open>text[i+1]\<close>, which raises IndexError once \<open>i + 1\<close> is past the end of the list
  (\<open>i\<close> is never negative, so the index never wraps around). It is left by
  \<^verbatim>\<open>break\<close> with \<open>i\<close> advanced, or it merges and goes round again. Every merge
  shortens the list, so the loop ends.
\<close>

function inner_loop :: "string list \<Rightarrow> nat \<Rightarrow> int \<Rightarrow> error + (string list \<times> nat \<times> int)" where
  "inner_loop text i len =
     (if length text \<le> i + 1 then Inl IndexError
      else if is_date (hd (str_split (text ! (i + 1)) '',''))
      then Inr (text, i + 1, len)
      else inner_loop (merge_two text i) i (len - 1))"
  by pat_completeness auto
termination
  by (relation "measure (\<lambda>(text, i, len). length text)") (auto simp: merge_two_def)

declare inner_loop.simps [simp del]

lemma inner_loop_advances:
  "inner_loop text i len = Inr (text', i', len') \<Longrightarrow> i' = i + 1 \<and> len' \<le> len"
proof (induction "text" i len rule: inner_loop.induct)
  case (1 frs i len)
  from "1.prems" show ?case
    using "1.IH" by (subst (asm) inner_loop.simps) (auto split: if_splits)
qed

text \<open>
  The outer loop \<^verbatim>\<open>while i <= length\<close>. \<open>length\<close> starts at \<open>len(text) - 2\<close>, which
  is negative for a list of fewer than two elements, so it is an \<open>int\<close>. Each round
  advances \<open>i\<close> and never raises \<open>length\<close>, so the loop ends.
\<close>

function outer_loop :: "string list \<Rightarrow> nat \<Rightarrow> int \<Rightarrow> error + string list" where
  "outer_loop text i len =
     (if int i \<le> len
      then (case inner_loop text i len of
              Inl e \<Rightarrow> Inl e
            | Inr (text', i', len') \<Rightarrow> outer_loop text' i' len')
      else Inr text)"
  by pat_completeness auto
termination
  by (relation "measure (\<lambda>(text, i, len). nat (len + 1 - int i))")
     (auto dest: inner_loop_advances)

declare outer_loop.simps [simp del]

definition format_messages :: "string list \<Rightarrow> error + string list" where
  "format_messages text = outer_loop text 0 (int (length text) - 2)"

text \<open>
  The property the claims speak of: a record begins with a valid date token when its
  prefix before the first comma has at most 8 characters, exactly two of them \<open>/\<close>.
\<close>

definition valid_date_token :: "string \<Rightarrow> bool" where
  "valid_date_token record =
     (let token = takeWhile (\<lambda>c. c \<noteq> CHR '','') record
      in length token \<le> 8 \<and> length (filter (\<lambda>c. c = CHR ''/'') token) = 2)"

text \<open>
  The loop invariant, relative to the input \<open>text0\<close>: \<open>length\<close> is two less than the
  length of the list; every element from the second up to the cursor starts with an input
  fragment that passed the date test; every element behind the cursor is still an
  untouched input fragment; the first element starts with the first input fragment.
\<close>

definition starts_with_dated :: "string list \<Rightarrow> string \<Rightarrow> bool" where
  "starts_with_dated text0 r \<longleftrightarrow> (\<exists>f \<in> set text0. prefix f r \<and> valid_date_token f)"

definition reassembly_inv :: "string list \<Rightarrow> string list \<Rightarrow> nat \<Rightarrow> int \<Rightarrow> bool" where
  "reassembly_inv text0 text i len \<longleftrightarrow>
     len = int (length text) - 2
     \<and> (\<forall>j. 0 < j \<and> j \<le> i \<and> j < length text \<longrightarrow> starts_with_dated text0 (text ! j))
     \<and> (\<forall>j. i < j \<and> j < length text \<longrightarrow> text ! j \<in> set text0)
     \<and> (text \<noteq> [] \<longrightarrow> text0 \<noteq> [] \<and> prefix (hd text0) (hd text))"

section \<open>Splitting a record into its fields (convert_to_dataframe)\<close>

text \<open>One row of the resulting DataFrame, with the columns of the source.\<close>

record row =
  Date :: string
  Time :: string
  Sender :: string
  Message :: string

text \<open>
  \<^verbatim>\<open>if len(s) > 2: s[1:] = [''.join(s[1:])]\<close>: the pieces behind the first are
  joined with the empty string, so the separators between them are lost.
\<close>

definition join_tail :: "string list \<Rightarrow> string list" where
  "join_tail s = (if length s > 2 then take 1 s @ [concat (drop 1 s)] else s)"

text \<open>
  The body of the loop over the records. \<^verbatim>\<open>s1[1]\<close> and \<^verbatim>\<open>s2[1]\<close> raise
  IndexError on a list of one piece; only a missing \<^verbatim>\<open>': '\<close> is provided for, by an
  empty sender.
\<close>

definition split_line :: "string \<Rightarrow> error + row" where
  "split_line line =
     (let s1 = join_tail (str_split line '', '') in
      if length s1 < 2 then Inl IndexError
      else
        let s2 = join_tail (str_split (s1 ! 1) '' - '') in
        if length s2 < 2 then Inl IndexError
        else
          let s3 = str_split (s2 ! 1) '': '';
              s3a = (if length s3 = 1 then ['''', s3 ! 0] else s3);
              s3b = join_tail s3a
          in Inr \<lparr>Date = s1 ! 0, Time = s2 ! 0, Sender = s3b ! 0, Message = s3b ! 1\<rparr>)"

text \<open>
  The loop \<^verbatim>\<open>for i in range(len(text))\<close>: the rows in the order of the records, or the
  exception of the first record that raises.
\<close>

fun convert_to_dataframe :: "string list \<Rightarrow> error + row list" where
  "convert_to_dataframe [] = Inr []"
| "convert_to_dataframe (line # text) =
     (case split_line line of
        Inl e \<Rightarrow> Inl e
      | Inr r \<Rightarrow>
          (case convert_to_dataframe text of
             Inl e \<Rightarrow> Inl e
           | Inr rows \<Rightarrow> Inr (r # rows)))"

text \<open>
  Notions of the claims. The number of positions of \<open>s\<close> at which \<open>sep\<close> occurs; the
  record put together again from a row; and the records on which no index is out of
  range: those that contain \<^verbatim>\<open>', '\<close> and whose remainder behind the first
  \<^verbatim>\<open>', '\<close> (the later pieces joined) contains \<^verbatim>\<open>' - '\<close>.
\<close>

definition occurrences :: "string \<Rightarrow> string \<Rightarrow> nat" where
  "occurrences sep s = length (filter (\<lambda>i. prefix sep (drop i s)) [0..<Suc (length s)])"

definition reconstruct :: "row \<Rightarrow> string" where
  "reconstruct m = Date m @ '', '' @ Time m @ '' - '' @ Sender m @ '': '' @ Message m"

definition tokenizable :: "string \<Rightarrow> bool" where
  "tokenizable line \<longleftrightarrow>
     sublist '', '' line \<and> sublist '' - '' (concat (tl (str_split line '', '')))"

section \<open>From links to URIs (convert_url_to_uri, convert_albums_to_tracks)\<close>

text \<open>
  The JSON answer of the catalog to \<^verbatim>\<open>GET /v1/albums/{id}\<close>, as far as the program
  reads it: \<^verbatim>\<open>album_dict['tracks']\<close> raises KeyError when the key is missing,
  \<^verbatim>\<open>.get('items', {})\<close> gives nothing to iterate over when it is, and
  \<^verbatim>\<open>item.get("id")\<close> is \<^verbatim>\<open>None\<close> when it is.
\<close>

datatype item = Item (item_id: "string option")

datatype tracks_obj = Tracks_obj (tracks_items: "item list option")

datatype album_dict = Album_dict (album_tracks: "tracks_obj option")

definition album_items :: "album_dict \<Rightarrow> error + item list" where
  "album_items d =
     (case album_tracks d of
        None \<Rightarrow> Inl KeyError
      | Some t \<Rightarrow> Inr (case tracks_items t of None \<Rightarrow> [] | Some xs \<Rightarrow> xs))"

text \<open>\<^verbatim>\<open>f'spotify:track:{item.get("id")}'\<close>; formatting \<^verbatim>\<open>None\<close> gives the text None.\<close>

definition track_uri :: "item \<Rightarrow> string" where
  "track_uri it = ''spotify:track:'' @ (case item_id it of None \<Rightarrow> ''None'' | Some s \<Rightarrow> s)"

text \<open>
  The loop over \<^verbatim>\<open>album_uri_list\<close>; \<open>catalog\<close> maps the identifier requested,
  \<^verbatim>\<open>album_uri.split(":")[-1]\<close>, to the answer. The tracks of each album are appended
  to \<^verbatim>\<open>track_uri_list\<close>.
\<close>

fun album_loop :: "(string \<Rightarrow> album_dict) \<Rightarrow> string list \<Rightarrow> string list \<Rightarrow> error + string list" where
  "album_loop catalog [] track_uri_list = Inr track_uri_list"
| "album_loop catalog (album_uri # album_uri_list) track_uri_list =
     (case album_items (catalog (last (str_split album_uri '':''))) of
        Inl e \<Rightarrow> Inl e
      | Inr its \<Rightarrow> album_loop catalog album_uri_list (track_uri_list @ map track_uri its))"

text \<open>
  Tracks and albums are told apart by the substring tests \<^verbatim>\<open>'track' in x\<close> and
  \<^verbatim>\<open>'album' in x\<close>.
\<close>

definition convert_albums_to_tracks :: "(string \<Rightarrow> album_dict) \<Rightarrow> string list \<Rightarrow> error + string list" where
  "convert_albums_to_tracks catalog uri_list =
     album_loop catalog (filter (sublist ''album'') uri_list) (filter (sublist ''track'') uri_list)"

text \<open>The body of the loop of \<^verbatim>\<open>convert_url_to_uri\<close>: both \<^verbatim>\<open>[1]\<close> can raise.\<close>

definition url_to_uri :: "string \<Rightarrow> error + string" where
  "url_to_uri url =
     (let s1 = str_split url ''https://open.spotify.com/'' in
      if length s1 < 2 then Inl IndexError
      else
        let sub_string_1 = s1 ! 1;
            sub_string_2 = str_split sub_string_1 ''/'' in
        if length sub_string_2 < 2 then Inl IndexError
        else
          let sub_string_3 = str_split (sub_string_2 ! 1) ''?'' ! 0
          in Inr (''spotify:'' @ sub_string_2 ! 0 @ '':'' @ sub_string_3))"

fun url_loop :: "string list \<Rightarrow> string list \<Rightarrow> error + string list" where
  "url_loop [] uri_list = Inr uri_list"
| "url_loop (url # url_list) uri_list =
     (case url_to_uri url of
        Inl e \<Rightarrow> Inl e
      | Inr uri \<Rightarrow> url_loop url_list (uri_list @ [uri]))"

text \<open>
  \<open>ALBUMS\<close> is the switch \<^verbatim>\<open>p.ALBUMS\<close> of the parameters module, which is not part
  of the sources at hand.
\<close>

definition convert_url_to_uri :: "bool \<Rightarrow> (string \<Rightarrow> album_dict) \<Rightarrow> string list \<Rightarrow> error + string list" where
  "convert_url_to_uri ALBUMS catalog url_list =
     (case url_loop url_list [] of
        Inl e \<Rightarrow> Inl e
      | Inr uri_list \<Rightarrow>
          if ALBUMS then convert_albums_to_tracks catalog uri_list else Inr uri_list)"

text \<open>
  Notions of the claims: a link the loop body cannot index, because the host prefix does
  not occur in it or because no \<open>/\<close> follows the prefix; and an identifier of kind album.
\<close>

definition malformed_link :: "string \<Rightarrow> bool" where
  "malformed_link url \<longleftrightarrow>
     \<not> sublist ''https://open.spotify.com/'' url
     \<or> CHR ''/'' \<notin> set (str_split url ''https://open.spotify.com/'' ! 1)"

definition album_kind :: "string \<Rightarrow> bool" where
  "album_kind uri \<longleftrightarrow> prefix ''spotify:album:'' uri"

section \<open>Synchronising the playlist (create_playlist)\<close>

text \<open>
  One POST to the tracks endpoint of a playlist: the playlist it addresses and the
  \<^verbatim>\<open>uris\<close> payload. What a function does to the service is the list of the requests
  it makes, in order.
\<close>

record request =
  playlist_id :: string
  uris :: "string list"

definition make_request :: "string list \<Rightarrow> string \<Rightarrow> request" where
  "make_request tracks pid = \<lparr>playlist_id = pid, uris = tracks\<rparr>"

text \<open>
  The loop of the else branch of \<^verbatim>\<open>add_items_to_playlist\<close>:
  \<^verbatim>\<open>while counter*100 <= len(tracks): make_request(tracks[counter*100:(counter+1)*100], ...); counter += 1\<close>
\<close>

function add_items_loop :: "nat \<Rightarrow> string list \<Rightarrow> string \<Rightarrow> request list" where
  "add_items_loop counter tracks pid =
     (if counter * 100 \<le> length tracks
      then make_request (py_slice tracks (counter * 100) ((counter + 1) * 100)) pid
             # add_items_loop (counter + 1) tracks pid
      else [])"
  by pat_completeness auto
termination
  by (relation "measure (\<lambda>(counter, tracks, pid). Suc (length tracks) - counter * 100)") auto

declare add_items_loop.simps [simp del]

definition add_items_to_playlist :: "string list \<Rightarrow> string \<Rightarrow> request list" where
  "add_items_to_playlist tracks pid =
     (if length tracks \<le> 100 then [make_request tracks pid]
      else add_items_loop 0 tracks pid)"

text \<open>
  \<^verbatim>\<open>list(set(tracks) - set(already_added_tracks))\<close>. Python does not specify the order
  in which a set is iterated, so the conversion of a set to a list is a parameter,
  \<open>list_of\<close>; all that is known of it is \<open>lists_set\<close>: it yields every element of a
  finite set once.
\<close>

definition lists_set :: "(string set \<Rightarrow> string list) \<Rightarrow> bool" where
  "lists_set list_of \<longleftrightarrow> (\<forall>S. finite S \<longrightarrow> set (list_of S) = S \<and> distinct (list_of S))"

definition obtain_new_tracks :: "(string set \<Rightarrow> string list) \<Rightarrow> string list \<Rightarrow> string list \<Rightarrow> string list" where
  "obtain_new_tracks list_of tracks already_added_tracks =
     list_of (set tracks - set already_added_tracks)"

text \<open>
  The POST requests of one run of \<^verbatim>\<open>create_playlist\<close>, in order. The answers of the
  service to the GET requests are parameters: \<open>playlist_name_list\<close> (of
  \<^verbatim>\<open>get_users_playlists\<close>), \<open>pid\<close> (of \<^verbatim>\<open>obtain_playlist_id\<close>) and
  \<open>current_tracks_in_playlist\<close> (of \<^verbatim>\<open>get_playlist_items\<close>); \<open>PLAYLIST_NAME\<close>
  is the constant of the parameters module.
\<close>

datatype call = Post_playlist string | Post_tracks request

definition create_playlist ::
  "(string set \<Rightarrow> string list) \<Rightarrow> string \<Rightarrow> string list \<Rightarrow> string \<Rightarrow> string list \<Rightarrow> string list \<Rightarrow> call list" where
  "create_playlist list_of PLAYLIST_NAME playlist_name_list pid current_tracks_in_playlist tracks =
     (if PLAYLIST_NAME \<in> set playlist_name_list
      then
        let new_tracks = obtain_new_tracks list_of tracks current_tracks_in_playlist in
        if new_tracks \<noteq> [] then map Post_tracks (add_items_to_playlist new_tracks pid) else []
      else
        Post_playlist PLAYLIST_NAME # map Post_tracks (add_items_to_playlist tracks pid))"

text \<open>The identifiers a run submits for addition: the payloads of its append requests.\<close>

fun added :: "call list \<Rightarrow> string list" where
  "added [] = []"
| "added (Post_playlist name # cs) = added cs"
| "added (Post_tracks r # cs) = uris r @ added cs"

section \<open>Facts about splitting\<close>

lemma split_from_nonempty: "split_from sep acc s \<noteq> []"
  by (induction s arbitrary: acc) auto

lemma split_from_length_sublist:
  "sep \<noteq> [] \<Longrightarrow> 2 \<le> length (split_from sep acc s) \<longleftrightarrow> sublist sep s"
proof (induction s arbitrary: acc)
  case Nil
  then show ?case by simp
next
  case (Cons c cs)
  show ?case
  proof (cases "prefix sep (c # cs)")
    case True
    have "1 \<le> length (split_from sep [] (drop (length sep) (c # cs)))"
      using split_from_nonempty [of sep "[]" "drop (length sep) (c # cs)"]
      by (simp add: Suc_le_eq)
    with True Cons.prems show ?thesis
      by (auto simp: sublist_Cons_right)
  next
    case False
    with Cons show ?thesis by (simp add: sublist_Cons_right)
  qed
qed

lemma str_split_length_sublist:
  "sep \<noteq> [] \<Longrightarrow> 2 \<le> length (str_split s sep) \<longleftrightarrow> sublist sep s"
  by (simp add: str_split_def split_from_length_sublist)

lemma hd_split_from_char:
  "hd (split_from [c] acc s) = acc @ takeWhile (\<lambda>x. x \<noteq> c) s"
  by (induction s arbitrary: acc) auto

lemma count_list_filter: "count_list xs x = length (filter (\<lambda>c. c = x) xs)"
  by (induction xs) auto

lemma split_from_no_occurrence:
  "sep \<noteq> [] \<Longrightarrow> (\<forall>i. \<not> prefix sep (drop i s)) \<Longrightarrow> split_from sep acc s = [acc @ s]"
proof (induction s arbitrary: acc)
  case Nil
  then show ?case by simp
next
  case (Cons c cs)
  from Cons.prems(2) have "\<not> prefix sep (drop 0 (c # cs))" by blast
  then have np: "\<not> prefix sep (c # cs)" by simp
  have "\<forall>i. \<not> prefix sep (drop i cs)"
  proof
    fix i
    from Cons.prems(2) have "\<not> prefix sep (drop (Suc i) (c # cs))" by blast
    then show "\<not> prefix sep (drop i cs)" by simp
  qed
  with Cons.IH [OF Cons.prems(1)] np show ?case by simp
qed

lemma split_from_first_occurrence:
  "sep \<noteq> [] \<Longrightarrow> (\<forall>i < length a. \<not> prefix sep (drop i (a @ sep @ b))) \<Longrightarrow>
   split_from sep acc (a @ sep @ b) = (acc @ a) # split_from sep [] b"
proof (induction a arbitrary: acc)
  case Nil
  then obtain x xs where sep: "sep = x # xs" by (cases sep) auto
  have "split_from sep acc (sep @ b) = acc # split_from sep [] (drop (length sep) (sep @ b))"
    by (simp add: sep)
  then show ?case by simp
next
  case (Cons c cs)
  from Cons.prems(2) have "\<not> prefix sep (drop 0 ((c # cs) @ sep @ b))" by blast
  then have np: "\<not> prefix sep (c # cs @ sep @ b)" by simp
  have "\<forall>i < length cs. \<not> prefix sep (drop i (cs @ sep @ b))"
  proof (intro allI impI)
    fix i assume "i < length cs"
    then have "Suc i < length (c # cs)" by simp
    with Cons.prems(2) have "\<not> prefix sep (drop (Suc i) ((c # cs) @ sep @ b))" by blast
    then show "\<not> prefix sep (drop i (cs @ sep @ b))" by simp
  qed
  with Cons.IH [OF Cons.prems(1)] np show ?case by simp
qed

lemma str_split_unique:
  assumes "sep \<noteq> []" and u: "\<forall>i. prefix sep (drop i (a @ sep @ b)) \<longrightarrow> i = length a"
  shows "str_split (a @ sep @ b) sep = [a, b]"
proof -
  have 1: "\<forall>i < length a. \<not> prefix sep (drop i (a @ sep @ b))"
  proof (intro allI impI notI)
    fix i assume "i < length a" and "prefix sep (drop i (a @ sep @ b))"
    with u show False by blast
  qed
  have 2: "\<forall>i. \<not> prefix sep (drop i b)"
  proof (intro allI notI)
    fix i assume p: "prefix sep (drop i b)"
    have "drop (length a + length sep + i) (a @ sep @ b) = drop i b" by simp
    with p u have "length a + length sep + i = length a" by metis
    with assms(1) show False by simp
  qed
  show ?thesis
    unfolding str_split_def
    using split_from_first_occurrence [OF assms(1) 1, of "[]"]
      split_from_no_occurrence [OF assms(1) 2, of "[]"]
    by simp
qed

lemma occurrences_unique:
  assumes "occurrences sep s = 1" and "sep \<noteq> []" and k: "prefix sep (drop k s)"
  shows "\<forall>i. prefix sep (drop i s) \<longrightarrow> i = k"
proof (intro allI impI)
  fix i assume i: "prefix sep (drop i s)"
  let ?occ = "filter (\<lambda>i. prefix sep (drop i s)) [0..<Suc (length s)]"
  from assms(1) have "length ?occ = Suc 0" by (simp add: occurrences_def del: upt_Suc)
  then obtain z where z: "?occ = [z]"
    by (auto simp: length_Suc_conv simp del: upt_Suc)
  have le: "j \<le> length s" if "prefix sep (drop j s)" for j
  proof (rule ccontr)
    assume "\<not> j \<le> length s"
    then have "drop j s = []" by simp
    with that assms(2) show False by simp
  qed
  from i le have "i \<in> set ?occ" by (simp add: less_Suc_eq_le del: upt_Suc)
  moreover from k le have "k \<in> set ?occ" by (simp add: less_Suc_eq_le del: upt_Suc)
  ultimately show "i = k" unfolding z by simp
qed

lemma occurs_after: "prefix sep (drop (length x) (x @ sep @ y))"
  by simp

lemma unique_in_suffix:
  assumes "\<forall>i. prefix sep (drop i (x @ y)) \<longrightarrow> i = length x + k"
  shows "\<forall>i. prefix sep (drop i y) \<longrightarrow> i = k"
proof (intro allI impI)
  fix i assume p: "prefix sep (drop i y)"
  have "drop (length x + i) (x @ y) = drop i y" by simp
  with p assms have "length x + i = length x + k" by metis
  then show "i = k" by simp
qed

section \<open>The reassembler: what it returns, and when it raises\<close>

lemma is_date_valid_token:
  "is_date (hd (str_split s '','')) = valid_date_token s"
  by (simp add: is_date_def valid_date_token_def Let_def str_split_def hd_split_from_char count_list_filter)

lemma valid_date_token_append:
  "CHR '','' \<in> set f \<Longrightarrow> valid_date_token (f @ r) = valid_date_token f"
  by (simp add: valid_date_token_def takeWhile_append1)

lemma merge_two_inside:
  "i + 1 < length text \<Longrightarrow>
   merge_two text i = take i text @ [text ! i @ text ! (i + 1)] @ drop (i + 2) text"
proof -
  assume a: "i + 1 < length text"
  then have "drop i text = text ! i # text ! (i + 1) # drop (i + 2) text"
    by (metis Cons_nth_drop_Suc Suc_eq_plus1 add_2_eq_Suc' add_lessD1)
  then show ?thesis by (simp add: merge_two_def py_slice_def)
qed

lemma merge_two_nth:
  assumes "i + 1 < length text"
  shows "length (merge_two text i) = length text - 1"
    and "j < i \<Longrightarrow> merge_two text i ! j = text ! j"
    and "merge_two text i ! i = text ! i @ text ! (i + 1)"
    and "i < j \<Longrightarrow> j < length text - 1 \<Longrightarrow> merge_two text i ! j = text ! (j + 1)"
proof -
  note m = merge_two_inside [OF assms]
  show "length (merge_two text i) = length text - 1" using assms by (simp add: m)
  show "j < i \<Longrightarrow> merge_two text i ! j = text ! j" using assms by (simp add: m nth_append)
  show "merge_two text i ! i = text ! i @ text ! (i + 1)" using assms by (simp add: m nth_append)
  show "i < j \<Longrightarrow> j < length text - 1 \<Longrightarrow> merge_two text i ! j = text ! (j + 1)"
  proof -
    assume "i < j" "j < length text - 1"
    then obtain k where k: "j = i + 1 + k" by (metis Suc_eq_plus1 less_iff_Suc_add add_Suc_shift add_Suc)
    with \<open>j < length text - 1\<close> assms show ?thesis
      by (simp add: m nth_append min_def)
  qed
qed

lemma starts_with_dated_append:
  "starts_with_dated text0 r \<Longrightarrow> starts_with_dated text0 (r @ x)"
  unfolding starts_with_dated_def by (meson prefix_prefix)

lemma merge_preserves_inv:
  assumes inv: "reassembly_inv text0 text i len" and lt: "i + 1 < length text"
  shows "reassembly_inv text0 (merge_two text i) i (len - 1)"
proof -
  note n = merge_two_nth [OF lt]
  from inv have l: "len = int (length text) - 2"
    and a: "\<And>j. 0 < j \<Longrightarrow> j \<le> i \<Longrightarrow> j < length text \<Longrightarrow> starts_with_dated text0 (text ! j)"
    and b: "\<And>j. i < j \<Longrightarrow> j < length text \<Longrightarrow> text ! j \<in> set text0"
    and c: "text \<noteq> [] \<Longrightarrow> text0 \<noteq> [] \<and> prefix (hd text0) (hd text)"
    by (auto simp: reassembly_inv_def)
  have 1: "len - 1 = int (length (merge_two text i)) - 2"
    using l lt by (simp add: n(1))
  have 2: "starts_with_dated text0 (merge_two text i ! j)"
    if "0 < j" "j \<le> i" "j < length (merge_two text i)" for j
  proof (cases "j = i")
    case True
    with that lt a [of i] show ?thesis by (simp add: n(3) starts_with_dated_append)
  next
    case False
    with that lt a [of j] show ?thesis by (simp add: n(2))
  qed
  have 3: "merge_two text i ! j \<in> set text0" if "i < j" "j < length (merge_two text i)" for j
    using that lt b [of "j + 1"] by (simp add: n(1) n(4))
  have 4: "text0 \<noteq> [] \<and> prefix (hd text0) (hd (merge_two text i))"
  proof -
    from lt have ne: "text \<noteq> []" by auto
    from lt have ne': "merge_two text i \<noteq> []" by (simp add: merge_two_inside)
    show ?thesis
    proof (cases "i = 0")
      case True
      with n(3) ne ne' c show ?thesis by (auto simp: hd_conv_nth)
    next
      case False
      with n(2) [of 0] ne ne' c show ?thesis by (auto simp: hd_conv_nth)
    qed
  qed
  show ?thesis unfolding reassembly_inv_def using 1 2 3 4 by blast
qed

lemma advance_preserves_inv:
  assumes inv: "reassembly_inv text0 text i len" and lt: "i + 1 < length text"
    and d: "valid_date_token (text ! (i + 1))"
  shows "reassembly_inv text0 text (i + 1) len"
proof -
  from inv lt have "text ! (i + 1) \<in> set text0" by (auto simp: reassembly_inv_def)
  with d have "starts_with_dated text0 (text ! (i + 1))"
    by (auto simp: starts_with_dated_def)
  with inv show ?thesis
    unfolding reassembly_inv_def by (auto simp: le_Suc_eq)
qed

lemma inner_loop_inv:
  "reassembly_inv text0 text i len \<Longrightarrow> inner_loop text i len = Inr (text', i', len') \<Longrightarrow>
   reassembly_inv text0 text' i' len'"
proof (induction "text" i len rule: inner_loop.induct)
  case (1 frs i len)
  from "1.prems"(2) have lt: "i + 1 < length frs"
    by (subst (asm) inner_loop.simps) (auto split: if_splits)
  show ?case
  proof (cases "valid_date_token (frs ! (i + 1))")
    case True
    with "1.prems"(2) lt have "text' = frs \<and> i' = i + 1 \<and> len' = len"
      by (subst (asm) inner_loop.simps) (simp add: is_date_valid_token)
    with advance_preserves_inv [OF "1.prems"(1) lt True] show ?thesis by simp
  next
    case False
    with "1.prems"(2) lt have "inner_loop (merge_two frs i) i (len - 1) = Inr (text', i', len')"
      by (subst (asm) inner_loop.simps) (simp add: is_date_valid_token)
    with "1.IH" False lt merge_preserves_inv [OF "1.prems"(1) lt] show ?thesis
      by (simp add: is_date_valid_token)
  qed
qed

lemma outer_loop_inv:
  "reassembly_inv text0 text i len \<Longrightarrow> outer_loop text i len = Inr out \<Longrightarrow>
   \<exists>k. reassembly_inv text0 out k (int (length out) - 2) \<and> length out \<le> k + 1"
proof (induction "text" i len rule: outer_loop.induct)
  case (1 frs i len)
  show ?case
  proof (cases "int i \<le> len")
    case True
    with "1.prems"(2) obtain text' i' len' where
      inner: "inner_loop frs i len = Inr (text', i', len')" and
      rest: "outer_loop text' i' len' = Inr out"
      by (subst (asm) outer_loop.simps) (auto split: sum.splits)
    from inner_loop_inv [OF "1.prems"(1) inner] "1.IH" [OF True inner _ _ _ rest]
    show ?thesis by simp
  next
    case False
    with "1.prems"(2) have "out = frs" by (subst (asm) outer_loop.simps) simp
    moreover from "1.prems"(1) have "len = int (length frs) - 2" by (simp add: reassembly_inv_def)
    ultimately show ?thesis using "1.prems"(1) False by (intro exI [of _ i]) auto
  qed
qed

lemma initial_inv: "reassembly_inv text text 0 (int (length text) - 2)"
  by (auto simp: reassembly_inv_def)

text \<open>
  C1, as far as it holds: when \<open>format_messages\<close> returns, every record of the output but the
  first starts with an input fragment that passed the date test, and begins with a valid
  date token itself if that fragment contains a comma; the first record starts with the
  first input fragment, which is never tested.
\<close>

theorem format_messages_records:
  assumes "format_messages text = Inr out"
  shows "(\<forall>j. 0 < j \<and> j < length out \<longrightarrow>
            (\<exists>f \<in> set text. prefix f (out ! j) \<and> valid_date_token f
                \<and> (CHR '','' \<in> set f \<longrightarrow> valid_date_token (out ! j))))
         \<and> (out \<noteq> [] \<longrightarrow> prefix (hd text) (hd out))"
proof -
  from assms outer_loop_inv [OF initial_inv] obtain k where
    inv: "reassembly_inv text out k (int (length out) - 2)" and k: "length out \<le> k + 1"
    unfolding format_messages_def by blast
  have "\<exists>f \<in> set text. prefix f (out ! j) \<and> valid_date_token f
                \<and> (CHR '','' \<in> set f \<longrightarrow> valid_date_token (out ! j))"
    if "0 < j" "j < length out" for j
  proof -
    from inv that k have "starts_with_dated text (out ! j)"
      by (auto simp: reassembly_inv_def)
    then obtain f where f: "f \<in> set text" "prefix f (out ! j)" "valid_date_token f"
      by (auto simp: starts_with_dated_def)
    from f(2) obtain r where "out ! j = f @ r" by (auto simp: prefix_def)
    with f valid_date_token_append [of f r] show ?thesis by (intro bexI [of _ f]) auto
  qed
  moreover from inv have "out \<noteq> [] \<longrightarrow> prefix (hd text) (hd out)"
    by (auto simp: reassembly_inv_def)
  ultimately show ?thesis by blast
qed


theorem format_messages_records_witness:
  "format_messages [''1/2/20, 10:00 - A: hi '', ''there '', ''3/4/20, 11:00 - B: yo '']
     = Inr [''1/2/20, 10:00 - A: hi there '', ''3/4/20, 11:00 - B: yo '']
   \<and> valid_date_token ''3/4/20, 11:00 - B: yo ''
   \<and> prefix ''1/2/20, 10:00 - A: hi '' ''1/2/20, 10:00 - A: hi there ''"
proof -
  let ?X = "[''1/2/20, 10:00 - A: hi '', ''there '', ''3/4/20, 11:00 - B: yo '']"
  let ?Y = "[''1/2/20, 10:00 - A: hi there '', ''3/4/20, 11:00 - B: yo '']"
  have h: "format_messages ?X = Inr ?Y" by code_simp
  have c: "\<forall>f \<in> set ?X. valid_date_token f \<longrightarrow> CHR '','' \<in> set f" by code_simp
  note t = format_messages_records [OF h]
  have j: "0 < (1::nat) \<and> 1 < length ?Y" by simp
  from t j have "\<exists>f \<in> set ?X. prefix f (?Y ! 1) \<and> valid_date_token f
                \<and> (CHR '','' \<in> set f \<longrightarrow> valid_date_token (?Y ! 1))"
    by blast
  with c have "valid_date_token (?Y ! 1)" by blast
  moreover from t have "prefix (hd ?X) (hd ?Y)" by simp
  ultimately show ?thesis using h by simp
qed

text \<open>
  C1 as stated fails: the first record of the output is the untested first fragment, and
  a fragment that is a date token without a comma loses its validity when a continuation
  is merged into it.
\<close>

theorem format_messages_counterexample:
  "format_messages [''hello '', ''1/2/20'', ''/x '', ''3/4/20, 11:00 - B: yo '']
     = Inr [''hello '', ''1/2/20/x '', ''3/4/20, 11:00 - B: yo '']
   \<and> \<not> valid_date_token ''hello ''
   \<and> \<not> valid_date_token ''1/2/20/x ''"
  by code_simp

lemma inner_loop_trailing:
  "i + 1 < length text \<Longrightarrow> \<not> valid_date_token (last text) \<Longrightarrow>
   inner_loop text i len = Inl IndexError \<or>
   (\<exists>text' len'. inner_loop text i len = Inr (text', i + 1, len')
       \<and> i + 2 < length text' \<and> \<not> valid_date_token (last text')
       \<and> len' - int (length text') = len - int (length text))"
proof (induction "text" i len rule: inner_loop.induct)
  case (1 frs i len)
  from "1.prems" have ne: "frs \<noteq> []" by auto
  show ?case
  proof (cases "valid_date_token (frs ! (i + 1))")
    case True
    with "1.prems"(2) ne have "i + 1 \<noteq> length frs - 1"
      by (auto simp: last_conv_nth)
    with "1.prems"(1) have "i + 2 < length frs" by simp
    with True "1.prems" show ?thesis
      by (subst inner_loop.simps) (simp add: is_date_valid_token)
  next
    case False
    with "1.prems"(1) have step: "inner_loop frs i len = inner_loop (merge_two frs i) i (len - 1)"
      by (subst inner_loop.simps) (simp add: is_date_valid_token)
    note n = merge_two_nth [OF "1.prems"(1)]
    show ?thesis
    proof (cases "i + 2 < length frs")
      case True
      then have lt: "i + 1 < length (merge_two frs i)" by (simp add: n(1))
      from True have "merge_two frs i \<noteq> []" using lt by auto
      then have "last (merge_two frs i) = merge_two frs i ! (length frs - 2)"
        by (simp add: last_conv_nth n(1) numeral_2_eq_2)
      also from True have "\<dots> = frs ! (length frs - 2 + 1)"
        by (intro n(4)) simp_all
      also from True have "length frs - 2 + 1 = length frs - 1" by simp
      finally have "last (merge_two frs i) = last frs" using ne by (simp add: last_conv_nth)
      with "1.prems"(2) have nv: "\<not> valid_date_token (last (merge_two frs i))" by simp
      from "1.IH" [OF _ _ lt nv] False "1.prems"(1) True show ?thesis
        by (simp add: step is_date_valid_token n(1))
    next
      case F: False
      with "1.prems"(1) have "length (merge_two frs i) \<le> i + 1" by (simp add: n(1))
      then have "inner_loop (merge_two frs i) i (len - 1) = Inl IndexError"
        by (subst inner_loop.simps) simp
      then show ?thesis by (simp add: step)
    qed
  qed
qed

lemma outer_loop_trailing:
  "i + 1 < length text \<Longrightarrow> \<not> valid_date_token (last text) \<Longrightarrow> len = int (length text) - 2 \<Longrightarrow>
   outer_loop text i len = Inl IndexError"
proof (induction "text" i len rule: outer_loop.induct)
  case (1 frs i len)
  from "1.prems" have enter: "int i \<le> len" by simp
  from inner_loop_trailing [OF "1.prems"(1,2), of len] show ?case
  proof
    assume "inner_loop frs i len = Inl IndexError"
    with enter show ?thesis by (subst outer_loop.simps) simp
  next
    assume "\<exists>text' len'. inner_loop frs i len = Inr (text', i + 1, len')
       \<and> i + 2 < length text' \<and> \<not> valid_date_token (last text')
       \<and> len' - int (length text') = len - int (length frs)"
    then obtain text' len' where
      inner: "inner_loop frs i len = Inr (text', i + 1, len')" and
      lt: "i + 1 + 1 < length text'" and nv: "\<not> valid_date_token (last text')" and
      l: "len' - int (length text') = len - int (length frs)"
      by auto
    from l "1.prems"(3) have l': "len' = int (length text') - 2" by simp
    from "1.IH" [OF enter inner refl refl lt nv l'] enter inner show ?thesis
      by (subst outer_loop.simps) simp
  qed
qed

lemma merge_two_last:
  assumes "i + 2 < length text"
  shows "last (merge_two text i) = last text"
proof -
  from assms have lt: "i + 1 < length text" by simp
  note n = merge_two_nth [OF lt]
  from assms have ne: "text \<noteq> []" "merge_two text i \<noteq> []" by (auto simp: merge_two_inside)
  then have "last (merge_two text i) = merge_two text i ! (length text - 2)"
    by (simp add: last_conv_nth n(1) numeral_2_eq_2)
  also from assms have "\<dots> = text ! (length text - 2 + 1)"
    by (intro n(4)) simp_all
  also from assms have "length text - 2 + 1 = length text - 1" by simp
  finally show ?thesis using ne by (simp add: last_conv_nth)
qed

lemma inner_loop_dated_last:
  "i + 1 < length text \<Longrightarrow> valid_date_token (last text) \<Longrightarrow>
   \<exists>text' len'. inner_loop text i len = Inr (text', i + 1, len')
       \<and> i + 1 < length text' \<and> valid_date_token (last text')
       \<and> len' - int (length text') = len - int (length text)"
proof (induction "text" i len rule: inner_loop.induct)
  case (1 frs i len)
  from "1.prems" have ne: "frs \<noteq> []" by auto
  show ?case
  proof (cases "valid_date_token (frs ! (i + 1))")
    case True
    with "1.prems" show ?thesis
      by (subst inner_loop.simps) (simp add: is_date_valid_token)
  next
    case False
    with "1.prems"(1) have step: "inner_loop frs i len = inner_loop (merge_two frs i) i (len - 1)"
      by (subst inner_loop.simps) (simp add: is_date_valid_token)
    from False "1.prems"(2) ne have "i + 1 \<noteq> length frs - 1"
      by (auto simp: last_conv_nth)
    with "1.prems"(1) have far: "i + 2 < length frs" by simp
    have l: "length (merge_two frs i) = length frs - 1"
      by (rule merge_two_nth(1) [OF "1.prems"(1)])
    from far have lt: "i + 1 < length (merge_two frs i)" by (simp add: l)
    from "1.prems"(2) have v: "valid_date_token (last (merge_two frs i))"
      by (simp add: merge_two_last [OF far])
    from "1.IH" [OF _ _ lt v] False "1.prems"(1) far show ?thesis
      by (simp add: step is_date_valid_token l)
  qed
qed

lemma outer_loop_dated_last:
  "i < length text \<Longrightarrow> valid_date_token (last text) \<Longrightarrow> len = int (length text) - 2 \<Longrightarrow>
   \<exists>out. outer_loop text i len = Inr out"
proof (induction "text" i len rule: outer_loop.induct)
  case (1 frs i len)
  show ?case
  proof (cases "int i \<le> len")
    case False
    then show ?thesis by (subst outer_loop.simps) simp
  next
    case True
    with "1.prems"(3) have lt: "i + 1 < length frs" by simp
    from inner_loop_dated_last [OF lt "1.prems"(2), of len] obtain text' len' where
      inner: "inner_loop frs i len = Inr (text', i + 1, len')" and
      lt': "i + 1 < length text'" and v: "valid_date_token (last text')" and
      l: "len' - int (length text') = len - int (length frs)"
      by blast
    from l "1.prems"(3) have l': "len' = int (length text') - 2" by simp
    from "1.IH" [OF True inner refl refl lt' v l'] True inner show ?thesis
      by (subst outer_loop.simps) simp
  qed
qed

lemma format_messages_returns:
  assumes "length text < 2 \<or> valid_date_token (last text)"
  shows "\<exists>out. format_messages text = Inr out"
proof (cases "length text < 2")
  case True
  then show ?thesis
    unfolding format_messages_def by (subst outer_loop.simps) simp
next
  case False
  with assms have "valid_date_token (last text)" and "0 < length text" by auto
  then show ?thesis
    unfolding format_messages_def by (intro outer_loop_dated_last) simp_all
qed

text \<open>
  C8: the reassembler always terminates (both loops are total functions), but when the
  fragments run out before a date boundary is found, that is whenever the last of two or
  more fragments fails the date test, it raises IndexError: nothing is returned, so no
  remainder is surfaced. On every other input it returns.
\<close>

theorem format_messages_trailing_continuation:
  "(2 \<le> length text \<and> \<not> valid_date_token (last text)
      \<longrightarrow> format_messages text = Inl IndexError)
   \<and> (length text < 2 \<or> valid_date_token (last text)
      \<longrightarrow> (\<exists>out. format_messages text = Inr out))"
proof (intro conjI impI)
  assume "2 \<le> length text \<and> \<not> valid_date_token (last text)"
  then show "format_messages text = Inl IndexError"
    unfolding format_messages_def by (intro outer_loop_trailing) auto
next
  assume "length text < 2 \<or> valid_date_token (last text)"
  then show "\<exists>out. format_messages text = Inr out"
    by (rule format_messages_returns)
qed

theorem format_messages_trailing_continuation_witness:
  "2 \<le> length [''1/2/20, 10:00 - A: hi '', ''there '']
   \<and> \<not> valid_date_token (last [''1/2/20, 10:00 - A: hi '', ''there ''])
   \<and> format_messages [''1/2/20, 10:00 - A: hi '', ''there ''] = Inl IndexError"
proof -
  have a: "2 \<le> length [''1/2/20, 10:00 - A: hi '', ''there '']" by simp
  have b: "\<not> valid_date_token (last [''1/2/20, 10:00 - A: hi '', ''there ''])" by code_simp
  from format_messages_trailing_continuation [of "[''1/2/20, 10:00 - A: hi '', ''there '']"] a b
  show ?thesis by blast
qed

section \<open>The tokenizer: when it raises, and the round trip\<close>

lemma join_tail_length: "length (join_tail s) < 2 \<longleftrightarrow> length s < 2"
  by (auto simp: join_tail_def)

lemma join_tail_snd: "2 \<le> length s \<Longrightarrow> join_tail s ! 1 = concat (tl s)"
proof -
  assume "2 \<le> length s"
  then obtain a b r where s: "s = a # b # r" 
    by (cases s; cases "tl s") auto
  show ?thesis by (cases r) (simp_all add: s join_tail_def)
qed

lemma split_line_cases:
  "split_line line =
     (if \<not> tokenizable line then Inl IndexError
      else
        let s2 = join_tail (str_split (concat (tl (str_split line '', ''))) '' - '');
            s3 = str_split (s2 ! 1) '': '';
            s3a = (if length s3 = 1 then ['''', s3 ! 0] else s3);
            s3b = join_tail s3a
        in Inr \<lparr>Date = hd (str_split line '', ''), Time = s2 ! 0,
                 Sender = s3b ! 0, Message = s3b ! 1\<rparr>)"
proof (cases "2 \<le> length (str_split line '', '')")
  case False
  then have "\<not> tokenizable line"
    by (simp add: tokenizable_def flip: str_split_length_sublist)
  with False show ?thesis
    by (simp add: split_line_def Let_def join_tail_length not_le)
next
  case True
  then have s1: "join_tail (str_split line '', '') ! 1 = concat (tl (str_split line '', ''))"
    by (rule join_tail_snd)
  from True have "str_split line '', '' \<noteq> []" by auto
  then have h: "join_tail (str_split line '', '') ! 0 = hd (str_split line '', '')"
    by (cases "str_split line '', ''") (simp_all add: join_tail_def)
  from True have t: "tokenizable line \<longleftrightarrow>
      2 \<le> length (str_split (concat (tl (str_split line '', ''))) '' - '')"
    by (simp add: tokenizable_def flip: str_split_length_sublist)
  from True have l: "\<not> length (join_tail (str_split line '', '')) < 2"
    by (simp add: join_tail_length)
  show ?thesis unfolding split_line_def Let_def s1 h using l t
    by (simp add: join_tail_length not_less)
qed

lemma split_line_tokenizable:
  "tokenizable line \<Longrightarrow> \<exists>r. split_line line = Inr r"
  by (subst split_line_cases) (simp add: Let_def)

lemma split_line_not_tokenizable:
  "\<not> tokenizable line \<Longrightarrow> split_line line = Inl IndexError"
  by (subst split_line_cases) simp

lemma convert_to_dataframe_ok:
  "(\<exists>rows. convert_to_dataframe text = Inr rows) \<longleftrightarrow> (\<forall>l \<in> set text. tokenizable l)"
proof (induction "text")
  case Nil
  then show ?case by simp
next
  case (Cons l ls)
  show ?case
  proof (cases "tokenizable l")
    case True
    then obtain r where "split_line l = Inr r" using split_line_tokenizable by blast
    with True Cons show ?thesis by (auto split: sum.splits)
  next
    case False
    then show ?thesis by (simp add: split_line_not_tokenizable)
  qed
qed

lemma convert_to_dataframe_error:
  "convert_to_dataframe text = Inl e \<Longrightarrow> e = IndexError"
proof (induction "text")
  case Nil
  then show ?case by simp
next
  case (Cons l ls)
  then show ?case
    using split_line_not_tokenizable [of l] split_line_tokenizable [of l]
    by (cases "tokenizable l") (auto split: sum.splits)
qed


text \<open>
  C2, as far as it holds: the tokenizer returns a row exactly for the records that contain
  \<^verbatim>\<open>', '\<close> and whose remainder behind the first \<^verbatim>\<open>', '\<close> contains
  \<^verbatim>\<open>' - '\<close>; on every other record it raises IndexError, and then
  \<open>convert_to_dataframe\<close> raises IndexError for the whole list of records.
\<close>

theorem split_line_total_iff:
  "((\<exists>r. split_line line = Inr r) \<longleftrightarrow> tokenizable line)
   \<and> (\<not> tokenizable line \<longrightarrow> split_line line = Inl IndexError)
   \<and> ((\<exists>rows. convert_to_dataframe text = Inr rows) \<longleftrightarrow> (\<forall>l \<in> set text. tokenizable l))
   \<and> ((\<exists>l \<in> set text. \<not> tokenizable l) \<longrightarrow> convert_to_dataframe text = Inl IndexError)"
proof -
  have "convert_to_dataframe text = Inl IndexError" if "\<exists>l \<in> set text. \<not> tokenizable l"
  proof (cases "convert_to_dataframe text")
    case (Inl e)
    then show ?thesis using convert_to_dataframe_error by simp
  next
    case (Inr rows)
    with that convert_to_dataframe_ok [of "text"] show ?thesis by blast
  qed
  moreover have "(\<exists>r. split_line line = Inr r) \<longleftrightarrow> tokenizable line"
    using split_line_tokenizable [of line] split_line_not_tokenizable [of line]
    by (cases "tokenizable line") auto
  ultimately show ?thesis
    using split_line_not_tokenizable [of line] convert_to_dataframe_ok [of "text"] by blast
qed

theorem split_line_total_iff_witness:
  "tokenizable ''1/2/20, 10:00 - Messages are encrypted''
   \<and> split_line ''1/2/20, 10:00 - Messages are encrypted''
       = Inr \<lparr>Date = ''1/2/20'', Time = ''10:00'', Sender = '''', Message = ''Messages are encrypted''\<rparr>
   \<and> \<not> tokenizable ''1/2/20, no dash''
   \<and> split_line ''1/2/20, no dash'' = Inl IndexError
   \<and> convert_to_dataframe [''1/2/20, 10:00 - Alice: hi'', ''1/2/20, no dash''] = Inl IndexError"
proof -
  have a: "tokenizable ''1/2/20, 10:00 - Messages are encrypted''" by code_simp
  have b: "\<not> tokenizable ''1/2/20, no dash''" by code_simp
  have c: "\<exists>l \<in> set [''1/2/20, 10:00 - Alice: hi'', ''1/2/20, no dash'']. \<not> tokenizable l"
    using b by simp
  have d: "split_line ''1/2/20, 10:00 - Messages are encrypted''
       = Inr \<lparr>Date = ''1/2/20'', Time = ''10:00'', Sender = '''', Message = ''Messages are encrypted''\<rparr>"
    by code_simp
  from split_line_total_iff [of "''1/2/20, no dash''"
      "[''1/2/20, 10:00 - Alice: hi'', ''1/2/20, no dash'']"] b c
  have "split_line ''1/2/20, no dash'' = Inl IndexError"
    and "convert_to_dataframe [''1/2/20, 10:00 - Alice: hi'', ''1/2/20, no dash''] = Inl IndexError"
    by blast+
  with a b d show ?thesis by blast
qed

text \<open>
  C2 as stated fails: a record without \<^verbatim>\<open>', '\<close>, or without \<^verbatim>\<open>' - '\<close>
  behind it, raises IndexError, and one such record fails the whole run.
\<close>

theorem split_line_counterexample:
  "split_line ''no separator at all'' = Inl IndexError
   \<and> split_line ''1/2/20, no dash'' = Inl IndexError
   \<and> convert_to_dataframe [''1/2/20, 10:00 - Alice: hi'', ''no separator at all'']
       = Inl IndexError"
  by code_simp


text \<open>
  C9: on a well-formed record \<open>date, time - sender: body\<close> in which each of the three
  separators occurs at one position only, the tokenizer returns these four fields, and
  putting them together again with the separators gives the record back.
\<close>

theorem split_line_roundtrip:
  assumes shape: "line = d @ '', '' @ t @ '' - '' @ s @ '': '' @ b"
    and c1: "occurrences '', '' line = 1"
    and c2: "occurrences '' - '' line = 1"
    and c3: "occurrences '': '' line = 1"
  shows "\<exists>m. split_line line = Inr m \<and> reconstruct m = line
           \<and> m = \<lparr>Date = d, Time = t, Sender = s, Message = b\<rparr>"
proof -
  let ?r2 = "s @ '': '' @ b"
  let ?r1 = "t @ '' - '' @ ?r2"
  have l2: "line = (d @ '', '') @ t @ '' - '' @ ?r2"
    and l2': "line = (d @ '', '' @ t) @ '' - '' @ ?r2"
    and l3: "line = (d @ '', '' @ t @ '' - '') @ s @ '': '' @ b"
    and l3': "line = (d @ '', '' @ t @ '' - '' @ s) @ '': '' @ b"
    by (simp_all add: shape)
  have "prefix '', '' (drop (length d) line)"
    unfolding shape by (rule occurs_after)
  from occurrences_unique [OF c1 _ this]
  have u1: "\<forall>i. prefix '', '' (drop i (d @ '', '' @ ?r1)) \<longrightarrow> i = length d"
    unfolding shape by simp
  have "prefix '' - '' (drop (length (d @ '', '' @ t)) line)"
    by (subst l2') (rule occurs_after)
  from occurrences_unique [OF c2 _ this]
  have "\<forall>i. prefix '' - '' (drop i ((d @ '', '') @ ?r1)) \<longrightarrow> i = length (d @ '', '') + length t"
    unfolding l2 [symmetric] by simp
  then have u2: "\<forall>i. prefix '' - '' (drop i (t @ '' - '' @ ?r2)) \<longrightarrow> i = length t"
    by (rule unique_in_suffix)
  have "prefix '': '' (drop (length (d @ '', '' @ t @ '' - '' @ s)) line)"
    by (subst l3') (rule occurs_after)
  from occurrences_unique [OF c3 _ this]
  have "\<forall>i. prefix '': '' (drop i ((d @ '', '' @ t @ '' - '') @ ?r2))
           \<longrightarrow> i = length (d @ '', '' @ t @ '' - '') + length s"
    unfolding l3 [symmetric] by (simp add: add.assoc)
  then have u3: "\<forall>i. prefix '': '' (drop i (s @ '': '' @ b)) \<longrightarrow> i = length s"
    by (rule unique_in_suffix)
  have s1: "str_split line '', '' = [d, ?r1]"
    unfolding shape by (rule str_split_unique [OF _ u1]) simp
  have s2: "str_split ?r1 '' - '' = [t, ?r2]"
    by (rule str_split_unique [OF _ u2]) simp
  have s3: "str_split ?r2 '': '' = [s, b]"
    by (rule str_split_unique [OF _ u3]) simp
  have j: "\<And>x y. join_tail [x, y] = [x, y]" by (simp add: join_tail_def)
  have n: "\<And>x y::string. [x, y] ! 1 = y" "\<And>x y::string. [x, y] ! 0 = x" by simp_all
  have "split_line line = Inr \<lparr>Date = d, Time = t, Sender = s, Message = b\<rparr>"
    unfolding split_line_def Let_def s1 j n s2 s3 by (simp add: j)
  moreover have "reconstruct \<lparr>Date = d, Time = t, Sender = s, Message = b\<rparr> = line"
    by (simp add: reconstruct_def shape)
  ultimately show ?thesis by simp
qed

theorem split_line_roundtrip_witness:
  "occurrences '', '' ''1/2/20, 10:00 - Alice: hi'' = 1
   \<and> occurrences '' - '' ''1/2/20, 10:00 - Alice: hi'' = 1
   \<and> occurrences '': '' ''1/2/20, 10:00 - Alice: hi'' = 1
   \<and> split_line ''1/2/20, 10:00 - Alice: hi''
        = Inr \<lparr>Date = ''1/2/20'', Time = ''10:00'', Sender = ''Alice'', Message = ''hi''\<rparr>
   \<and> reconstruct \<lparr>Date = ''1/2/20'', Time = ''10:00'', Sender = ''Alice'', Message = ''hi''\<rparr>
        = ''1/2/20, 10:00 - Alice: hi''"
proof -
  have shape: "''1/2/20, 10:00 - Alice: hi'' = ''1/2/20'' @ '', '' @ ''10:00'' @ '' - '' @ ''Alice'' @ '': '' @ ''hi''"
    by simp
  have c1: "occurrences '', '' ''1/2/20, 10:00 - Alice: hi'' = 1" by code_simp
  have c2: "occurrences '' - '' ''1/2/20, 10:00 - Alice: hi'' = 1" by code_simp
  have c3: "occurrences '': '' ''1/2/20, 10:00 - Alice: hi'' = 1" by code_simp
  from split_line_roundtrip [OF shape c1 c2 c3] c1 c2 c3 show ?thesis by auto
qed

section \<open>Links and albums\<close>

lemma sublist_single: "sublist [c] s \<longleftrightarrow> c \<in> set s"
  by (induction s) (auto simp: sublist_Cons_right)

lemma url_to_uri_malformed: "malformed_link url \<Longrightarrow> url_to_uri url = Inl IndexError"
proof -
  assume m: "malformed_link url"
  show ?thesis
  proof (cases "sublist ''https://open.spotify.com/'' url")
    case False
    then have "length (str_split url ''https://open.spotify.com/'') < 2"
      using str_split_length_sublist [of "''https://open.spotify.com/''" url] by simp
    then show ?thesis by (simp add: url_to_uri_def Let_def)
  next
    case True
    with m have "\<not> sublist ''/'' (str_split url ''https://open.spotify.com/'' ! 1)"
      by (simp add: malformed_link_def sublist_single)
    then have "length (str_split (str_split url ''https://open.spotify.com/'' ! 1) ''/'') < 2"
      using str_split_length_sublist
        [of "''/''" "str_split url ''https://open.spotify.com/'' ! 1"]
      by simp
    then show ?thesis by (simp add: url_to_uri_def Let_def)
  qed
qed

lemma url_to_uri_error: "url_to_uri url = Inl e \<Longrightarrow> e = IndexError"
  by (simp add: url_to_uri_def Let_def split: if_splits)

lemma url_loop_malformed:
  "\<exists>url \<in> set url_list. malformed_link url \<Longrightarrow> url_loop url_list uri_list = Inl IndexError"
proof (induction url_list arbitrary: uri_list)
  case Nil
  then show ?case by simp
next
  case (Cons url url_list)
  show ?case
  proof (cases "malformed_link url")
    case True
    then show ?thesis by (simp add: url_to_uri_malformed)
  next
    case False
    with Cons.prems have "\<exists>url \<in> set url_list. malformed_link url" by simp
    with Cons.IH url_to_uri_error [of url] show ?thesis by (auto split: sum.splits)
  qed
qed

text \<open>
  C3, as far as it holds: a batch that holds a link without the host prefix, or without a
  \<open>/\<close> behind the prefix, makes \<open>convert_url_to_uri\<close> raise IndexError: no list of
  URIs is returned, nothing is reported for the one link, and the other links of the
  batch are lost with it.
\<close>

theorem convert_url_to_uri_malformed:
  assumes "url \<in> set url_list" and "malformed_link url"
  shows "convert_url_to_uri ALBUMS catalog url_list = Inl IndexError"
proof -
  from assms have "url_loop url_list [] = Inl IndexError"
    by (intro url_loop_malformed) blast
  then show ?thesis by (simp add: convert_url_to_uri_def)
qed

theorem convert_url_to_uri_malformed_witness:
  "malformed_link ''https://youtu.be/dQw4w9WgXcQ''
   \<and> convert_url_to_uri False (\<lambda>a. Album_dict None)
        [''https://open.spotify.com/track/abc123'', ''https://youtu.be/dQw4w9WgXcQ'']
      = Inl IndexError"
proof -
  have m: "malformed_link ''https://youtu.be/dQw4w9WgXcQ''" by code_simp
  have i: "''https://youtu.be/dQw4w9WgXcQ''
      \<in> set [''https://open.spotify.com/track/abc123'', ''https://youtu.be/dQw4w9WgXcQ'']"
    by simp
  from convert_url_to_uri_malformed [OF i m] m show ?thesis by blast
qed

text \<open>
  C3 as stated fails: with a link of another host in the batch the result is the
  exception, not the URIs of the well-formed links; without it they are returned.
\<close>

theorem convert_url_to_uri_counterexample:
  "convert_url_to_uri False (\<lambda>a. Album_dict None)
        [''https://youtu.be/dQw4w9WgXcQ'', ''https://open.spotify.com/track/abc123?si=x'']
      = Inl IndexError
   \<and> convert_url_to_uri False (\<lambda>a. Album_dict None)
        [''https://open.spotify.com/track/abc123?si=x'']
      = Inr [''spotify:track:abc123'']"
  by code_simp

lemma album_loop_result:
  "album_loop catalog albums acc = Inr out \<Longrightarrow>
   out = acc @ concat (map (\<lambda>a. case album_items (catalog (last (str_split a '':''))) of
                                  Inl e \<Rightarrow> [] | Inr its \<Rightarrow> map track_uri its) albums)"
proof (induction albums arbitrary: acc)
  case Nil
  then show ?case by simp
next
  case (Cons a albums)
  from Cons.prems obtain its where
    its: "album_items (catalog (last (str_split a '':''))) = Inr its" and
    rest: "album_loop catalog albums (acc @ map track_uri its) = Inr out"
    by (auto split: sum.splits)
  from Cons.IH [OF rest] its show ?case by simp
qed

lemma track_uri_not_album: "\<not> album_kind (track_uri it)"
  by (simp add: album_kind_def track_uri_def)

text \<open>
  The output of \<open>convert_albums_to_tracks\<close> in closed form: the input URIs that
  contain \<open>track\<close>, unchanged and in order, followed for each input URI that contains
  \<open>album\<close> by one track URI per member the catalog returned.
\<close>

lemma convert_albums_to_tracks_output:
  assumes "convert_albums_to_tracks catalog uri_list = Inr out"
  shows "out = filter (sublist ''track'') uri_list
               @ concat (map (\<lambda>a. case album_items (catalog (last (str_split a '':''))) of
                                      Inl e \<Rightarrow> [] | Inr its \<Rightarrow> map track_uri its)
                             (filter (sublist ''album'') uri_list))"
  using assms unfolding convert_albums_to_tracks_def by (rule album_loop_result)

lemma generated_not_album:
  "x \<in> set (concat (map (\<lambda>a. case album_items (catalog (last (str_split a '':''))) of
                                Inl e \<Rightarrow> [] | Inr its \<Rightarrow> map track_uri its) albums))
   \<Longrightarrow> \<not> album_kind x"
  using track_uri_not_album by (auto split: sum.splits)

text \<open>
  C4: the claim asks that no album identifier remains in the output, and the docstring
  of the function says the same (the album URI itself will be removed). The code keeps
  some: whenever it returns, an identifier of kind album is in the output exactly if it
  is an input URI whose text contains \<open>track\<close>, because the test
  \<^verbatim>\<open>'track' in x\<close> then takes it for a track.
\<close>

theorem convert_albums_to_tracks_keeps_album:
  assumes "convert_albums_to_tracks catalog uri_list = Inr out" and "album_kind x"
  shows "x \<in> set out \<longleftrightarrow> x \<in> set uri_list \<and> sublist ''track'' x"
proof -
  let ?gen = "concat (map (\<lambda>a. case album_items (catalog (last (str_split a '':''))) of
                                      Inl e \<Rightarrow> [] | Inr its \<Rightarrow> map track_uri its)
                             (filter (sublist ''album'') uri_list))"
  from assms(1) have out: "out = filter (sublist ''track'') uri_list @ ?gen"
    by (rule convert_albums_to_tracks_output)
  from assms(2) have "x \<notin> set ?gen"
    using generated_not_album [of x catalog "filter (sublist ''album'') uri_list"] by blast
  then have "x \<in> set out \<longleftrightarrow> x \<in> set (filter (sublist ''track'') uri_list)"
    unfolding out set_append Un_iff by blast
  then show ?thesis by simp
qed

theorem convert_albums_to_tracks_keeps_album_witness:
  "convert_albums_to_tracks
       (\<lambda>a. Album_dict (Some (Tracks_obj (Some [Item (Some ''t1''), Item (Some ''t2'')]))))
       [''spotify:album:6trackGh9vmqN3uQ7FjRGT'']
     = Inr [''spotify:album:6trackGh9vmqN3uQ7FjRGT'', ''spotify:track:t1'', ''spotify:track:t2'']
   \<and> album_kind ''spotify:album:6trackGh9vmqN3uQ7FjRGT''
   \<and> sublist ''track'' ''spotify:album:6trackGh9vmqN3uQ7FjRGT''
   \<and> ''spotify:album:6trackGh9vmqN3uQ7FjRGT''
        \<in> set [''spotify:album:6trackGh9vmqN3uQ7FjRGT'', ''spotify:track:t1'', ''spotify:track:t2'']"
proof -
  let ?c = "\<lambda>a::string. Album_dict (Some (Tracks_obj (Some [Item (Some ''t1''), Item (Some ''t2'')])))"
  let ?x = "''spotify:album:6trackGh9vmqN3uQ7FjRGT''"
  let ?out = "[?x, ''spotify:track:t1'', ''spotify:track:t2'']"
  have r: "convert_albums_to_tracks ?c [?x] = Inr ?out" by code_simp
  have k: "album_kind ?x" by code_simp
  have s: "sublist ''track'' ?x" by code_simp
  have i: "?x \<in> set [?x]" by simp
  from convert_albums_to_tracks_keeps_album [OF r k] i s have "?x \<in> set ?out" by blast
  with r k s show ?thesis by blast
qed

section \<open>Batching and synchronisation\<close>

lemma py_slice_page: "py_slice xs a (100 + a) = take 100 (drop a xs)"
  by (simp add: py_slice_def)

lemma loop_sizes: "\<forall>r \<in> set (add_items_loop c tracks pid). length (uris r) \<le> 100"
proof (induction c tracks pid rule: add_items_loop.induct)
  case (1 counter tracks pid)
  show ?case
    using 1 by (subst add_items_loop.simps) (auto simp: make_request_def py_slice_page)
qed

lemma loop_concat: "concat (map uris (add_items_loop c tracks pid)) = drop (c * 100) tracks"
proof (induction c tracks pid rule: add_items_loop.induct)
  case (1 counter tracks pid)
  show ?case
  proof (cases "counter * 100 \<le> length tracks")
    case True
    have "drop (100 + counter * 100) tracks = drop 100 (drop (counter * 100) tracks)"
      by (simp add: add.commute)
    then have "take 100 (drop (counter * 100) tracks) @ drop ((counter + 1) * 100) tracks
          = drop (counter * 100) tracks"
      by (simp del: drop_drop)
    with True 1 show ?thesis
      by (subst add_items_loop.simps) (simp add: make_request_def py_slice_page)
  next
    case False
    then show ?thesis by (subst add_items_loop.simps) simp
  qed
qed

lemma loop_length:
  "length (add_items_loop c tracks pid)
     = (if c * 100 \<le> length tracks then length tracks div 100 + 1 - c else 0)"
proof (induction c tracks pid rule: add_items_loop.induct)
  case (1 counter tracks pid)
  show ?case
  proof (cases "counter * 100 \<le> length tracks")
    case True
    then have c: "counter \<le> length tracks div 100" by (simp add: less_eq_div_iff_mult_less_eq)
    show ?thesis
    proof (cases "(counter + 1) * 100 \<le> length tracks")
      case T2: True
      then have "counter + 1 \<le> length tracks div 100" by (simp add: less_eq_div_iff_mult_less_eq)
      with True T2 1 show ?thesis by (subst add_items_loop.simps) simp
    next
      case F2: False
      then have "\<not> counter + 1 \<le> length tracks div 100" by (simp add: less_eq_div_iff_mult_less_eq)
      with c have "length tracks div 100 = counter" by simp
      with True F2 1 show ?thesis by (subst add_items_loop.simps) simp
    qed
  next
    case False
    then show ?thesis by (subst add_items_loop.simps) simp
  qed
qed

lemma loop_last:
  "c * 100 \<le> length tracks \<Longrightarrow>
   uris (last (add_items_loop c tracks pid)) = drop (length tracks div 100 * 100) tracks"
proof (induction c tracks pid rule: add_items_loop.induct)
  case (1 counter tracks pid)
  show ?case
  proof (cases "(counter + 1) * 100 \<le> length tracks")
    case True
    then have ne: "add_items_loop (counter + 1) tracks pid \<noteq> []"
      by (subst add_items_loop.simps) simp
    from 1 True ne show ?thesis
      by (subst add_items_loop.simps) simp
  next
    case False
    then have e: "add_items_loop (counter + 1) tracks pid = []"
      by (subst add_items_loop.simps) simp
    from False "1.prems" have "\<not> counter + 1 \<le> length tracks div 100" "counter \<le> length tracks div 100"
      by (simp_all add: less_eq_div_iff_mult_less_eq)
    then have d: "length tracks div 100 = counter" by simp
    from False have "length (drop (counter * 100) tracks) \<le> 100" by simp
    then have "take 100 (drop (counter * 100) tracks) = drop (counter * 100) tracks" by simp
    with "1.prems" e d show ?thesis
      by (subst add_items_loop.simps) (simp add: make_request_def py_slice_page)
  qed
qed

lemma sizes_250:
  assumes "length tracks = 250"
  shows "map (length \<circ> uris) (add_items_loop 0 tracks pid) = [100, 100, 50]"
proof -
  have a: "add_items_loop 0 tracks pid = make_request (py_slice tracks 0 100) pid # add_items_loop 1 tracks pid"
    using assms by (subst add_items_loop.simps) simp
  have b: "add_items_loop 1 tracks pid = make_request (py_slice tracks 100 200) pid # add_items_loop 2 tracks pid"
    using assms by (subst add_items_loop.simps) (simp add: numeral_2_eq_2)
  have c: "add_items_loop 2 tracks pid = make_request (py_slice tracks 200 300) pid # add_items_loop 3 tracks pid"
    using assms by (subst add_items_loop.simps) (simp add: numeral_3_eq_3 numeral_2_eq_2)
  have d: "add_items_loop 3 tracks pid = []"
    using assms by (subst add_items_loop.simps) simp
  show ?thesis using assms by (simp add: a b [simplified] c d make_request_def py_slice_def)
qed

lemma add_items_sizes: "\<forall>r \<in> set (add_items_to_playlist tracks pid). length (uris r) \<le> 100"
  using loop_sizes [of 0 tracks pid] by (simp add: add_items_to_playlist_def make_request_def)

lemma add_items_concat: "concat (map uris (add_items_to_playlist tracks pid)) = tracks"
  using loop_concat [of 0 tracks pid] by (simp add: add_items_to_playlist_def make_request_def)

text \<open>
  C5: no submitted chunk is larger than the page size of 100, the chunks concatenated in
  the order of submission are the track list itself, and a list of 250 tracks is
  submitted as three chunks of sizes 100, 100 and 50.
\<close>

theorem add_items_batching:
  "(\<forall>r \<in> set (add_items_to_playlist tracks pid). length (uris r) \<le> 100)
   \<and> concat (map uris (add_items_to_playlist tracks pid)) = tracks
   \<and> (length tracks = 250 \<longrightarrow>
        map (length \<circ> uris) (add_items_to_playlist tracks pid) = [100, 100, 50])"
  using add_items_sizes [of tracks pid] add_items_concat [of tracks pid] sizes_250 [of tracks pid]
  by (simp add: add_items_to_playlist_def)

theorem add_items_batching_witness:
  "concat (map uris (add_items_to_playlist (map (\<lambda>n. replicate n CHR ''a'') [0..<250]) ''p''))
       = map (\<lambda>n. replicate n CHR ''a'') [0..<250]
   \<and> distinct (map (\<lambda>n. replicate n CHR ''a'') [0..<250])
   \<and> length (map (\<lambda>n. replicate n CHR ''a'') [0..<250]) = 250
   \<and> map (length \<circ> uris) (add_items_to_playlist (map (\<lambda>n. replicate n CHR ''a'') [0..<250]) ''p'')
       = [100, 100, 50]"
proof -
  have inj: "inj_on (\<lambda>n. replicate n CHR ''a'') (set [0..<250])"
    by (rule inj_onI) (metis length_replicate)
  have d: "distinct (map (\<lambda>n. replicate n CHR ''a'') [0..<250])"
    using inj by (simp add: distinct_map)
  show ?thesis
    using add_items_batching [of "map (\<lambda>n. replicate n CHR ''a'') [0..<250]" "''p''"] d
    by simp
qed

text \<open>
  C10: for a list of more than 100 tracks the number of append requests is
  \<open>n div 100 + 1\<close>, and when the length is a multiple of 100 the last request carries
  an empty list of tracks.
\<close>

theorem add_items_request_count:
  "100 < length tracks \<Longrightarrow>
     length (add_items_to_playlist tracks pid) = length tracks div 100 + 1
     \<and> (length tracks mod 100 = 0 \<longrightarrow> uris (last (add_items_to_playlist tracks pid)) = [])"
  using loop_length [of 0 tracks pid] loop_last [of 0 tracks pid]
  by (auto simp: add_items_to_playlist_def)

theorem add_items_request_count_witness:
  "100 < length (replicate 200 ''t'')
   \<and> length (add_items_to_playlist (replicate 200 ''t'') ''p'') = 3
   \<and> length (replicate 200 ''t'') mod 100 = 0
   \<and> uris (last (add_items_to_playlist (replicate 200 ''t'') ''p'')) = []"
  using add_items_request_count [of "replicate 200 ''t''" "''p''"]
  by simp

lemma added_post_tracks: "added (map Post_tracks rs) = concat (map uris rs)"
  by (induction rs) auto

lemma added_add_items: "added (map Post_tracks (add_items_to_playlist tracks pid)) = tracks"
  by (simp add: added_post_tracks add_items_concat)

lemma obtain_new_tracks_lists:
  "lists_set list_of \<Longrightarrow>
   set (obtain_new_tracks list_of tracks already) = set tracks - set already
   \<and> distinct (obtain_new_tracks list_of tracks already)"
  by (simp add: lists_set_def obtain_new_tracks_def)

lemma added_create_playlist_exists:
  "PLAYLIST_NAME \<in> set names \<Longrightarrow>
   added (create_playlist list_of PLAYLIST_NAME names pid current tracks)
     = obtain_new_tracks list_of tracks current"
  by (simp add: create_playlist_def Let_def added_add_items)

lemma lists_set_sorted: "lists_set sorted_list_of_set"
  by (simp add: lists_set_def)

text \<open>
  The branch for an existing playlist: the identifiers submitted for addition are the
  set difference of the desired and the current ones, each once.
\<close>

lemma create_playlist_exists_additions:
  assumes "lists_set list_of" and e: "PLAYLIST_NAME \<in> set names"
  shows "distinct (added (create_playlist list_of PLAYLIST_NAME names pid current tracks))
         \<and> set (added (create_playlist list_of PLAYLIST_NAME names pid current tracks))
             = set tracks - set current"
  using obtain_new_tracks_lists [OF assms(1), of tracks current]
  by (simp add: added_create_playlist_exists [OF e])

text \<open>
  C6: the claim asks that the additions of one run hold each identifier at most once,
  in the create state too. The code deduplicates only in the branch for an existing
  playlist. When the playlist does not exist, the run is the request that creates it
  followed by the append requests for the desired list as it is, so a desired list with a
  duplicate is submitted with the duplicate.
\<close>

theorem create_playlist_create_duplicates:
  assumes "PLAYLIST_NAME \<notin> set names" and "\<not> distinct tracks"
  shows "create_playlist list_of PLAYLIST_NAME names pid current tracks
           = Post_playlist PLAYLIST_NAME # map Post_tracks (add_items_to_playlist tracks pid)
         \<and> added (create_playlist list_of PLAYLIST_NAME names pid current tracks) = tracks
         \<and> \<not> distinct (added (create_playlist list_of PLAYLIST_NAME names pid current tracks))"
proof -
  from assms(1) have c: "create_playlist list_of PLAYLIST_NAME names pid current tracks
           = Post_playlist PLAYLIST_NAME # map Post_tracks (add_items_to_playlist tracks pid)"
    by (simp add: create_playlist_def)
  then have a: "added (create_playlist list_of PLAYLIST_NAME names pid current tracks) = tracks"
    by (simp add: added_add_items)
  from c a assms(2) show ?thesis by simp
qed

theorem create_playlist_create_duplicates_witness:
  "''Shared'' \<notin> set [''Mix'']
   \<and> \<not> distinct [''spotify:track:a'', ''spotify:track:a'']
   \<and> create_playlist sorted_list_of_set ''Shared'' [''Mix''] ''p1'' []
        [''spotify:track:a'', ''spotify:track:a'']
       = [Post_playlist ''Shared'',
          Post_tracks \<lparr>playlist_id = ''p1'', uris = [''spotify:track:a'', ''spotify:track:a'']\<rparr>]
   \<and> create_playlist sorted_list_of_set ''Shared'' [''Shared''] ''p1'' []
        [''spotify:track:a'', ''spotify:track:a'']
       = [Post_tracks \<lparr>playlist_id = ''p1'', uris = [''spotify:track:a'']\<rparr>]"
proof -
  let ?tracks = "[''spotify:track:a'', ''spotify:track:a'']"
  have n: "''Shared'' \<notin> set [''Mix'']" by simp
  have d: "\<not> distinct ?tracks" by simp
  have b: "add_items_to_playlist ?tracks ''p1''
      = [\<lparr>playlist_id = ''p1'', uris = ?tracks\<rparr>]"
    by (simp add: add_items_to_playlist_def make_request_def)
  from create_playlist_create_duplicates [OF n d, of sorted_list_of_set "''p1''" "[]"]
  have 1: "create_playlist sorted_list_of_set ''Shared'' [''Mix''] ''p1'' [] ?tracks
       = [Post_playlist ''Shared'', Post_tracks \<lparr>playlist_id = ''p1'', uris = ?tracks\<rparr>]"
    by (simp add: b)
  have s: "set ?tracks - set [] = {''spotify:track:a''}" by auto
  have 2: "create_playlist sorted_list_of_set ''Shared'' [''Shared''] ''p1'' [] ?tracks
       = [Post_tracks \<lparr>playlist_id = ''p1'', uris = [''spotify:track:a'']\<rparr>]"
    unfolding create_playlist_def obtain_new_tracks_def s
    by (simp add: add_items_to_playlist_def make_request_def)
  from n d 1 2 show ?thesis by blast
qed

text \<open>
  C7: let a first run against an existing playlist compute \<open>toAdd\<close>, the desired
  identifiers that are not current, and submit it. A second run with the same desired
  list, against the current identifiers together with \<open>toAdd\<close>, computes an empty list
  of new tracks and makes no request.
\<close>

theorem create_playlist_idempotent:
  assumes "lists_set list_of1" and "lists_set list_of2"
    and "PLAYLIST_NAME \<in> set names1" and "PLAYLIST_NAME \<in> set names2"
    and "toAdd = obtain_new_tracks list_of1 desired current"
    and "set current2 = set current \<union> set toAdd"
  shows "added (create_playlist list_of1 PLAYLIST_NAME names1 pid1 current desired) = toAdd
         \<and> obtain_new_tracks list_of2 desired current2 = []
         \<and> create_playlist list_of2 PLAYLIST_NAME names2 pid2 current2 desired = []"
proof -
  from obtain_new_tracks_lists [OF assms(1), of desired current] assms(5)
  have "set toAdd = set desired - set current" by simp
  with assms(6) have "set desired - set current2 = {}" by auto
  with obtain_new_tracks_lists [OF assms(2), of desired current2]
  have e: "obtain_new_tracks list_of2 desired current2 = []" by simp
  then have "create_playlist list_of2 PLAYLIST_NAME names2 pid2 current2 desired = []"
    using assms(4) by (simp add: create_playlist_def)
  with e assms(3,5) show ?thesis by (simp add: added_create_playlist_exists)
qed

theorem create_playlist_idempotent_witness:
  "lists_set sorted_list_of_set
   \<and> obtain_new_tracks sorted_list_of_set [''spotify:track:a'', ''spotify:track:b'']
        [''spotify:track:b''] = [''spotify:track:a'']
   \<and> obtain_new_tracks sorted_list_of_set [''spotify:track:a'', ''spotify:track:b'']
        [''spotify:track:b'', ''spotify:track:a''] = []
   \<and> create_playlist sorted_list_of_set ''Shared'' [''Shared''] ''p1''
        [''spotify:track:b'', ''spotify:track:a''] [''spotify:track:a'', ''spotify:track:b''] = []"
proof -
  let ?desired = "[''spotify:track:a'', ''spotify:track:b'']"
  let ?current = "[''spotify:track:b'']"
  let ?current2 = "[''spotify:track:b'', ''spotify:track:a'']"
  have d: "set ?desired - set ?current = {''spotify:track:a''}" by auto
  have a: "obtain_new_tracks sorted_list_of_set ?desired ?current = [''spotify:track:a'']"
    unfolding obtain_new_tracks_def d by simp
  have c: "set ?current2 = set ?current \<union> set [''spotify:track:a'']" by auto
  have e: "''Shared'' \<in> set [''Shared'']" by simp
  from create_playlist_idempotent [OF lists_set_sorted lists_set_sorted e e a [symmetric] c,
      of "''p1''" "''p1''"] a lists_set_sorted
  show ?thesis by blast
qed

end
